theory Spec2Isabelle
  imports Main
begin

section \<open>Data model of function_graph.py\<close>

text \<open>
  Python exceptions that the modelled code can raise. \<open>KeyError\<close> is a failed
  dictionary subscript, \<open>TypeError\<close> is the explicit raise of \<open>c3_merge\<close>,
  \<open>ValueError\<close> is a failed unpacking \<open>head, *tail\<close> of an empty list and
  \<open>SystemExit\<close> is \<open>sys.exit\<close> of the command line.
\<close>

datatype error = KeyError | TypeError | ValueError | SystemExit

text \<open>
  \<open>class Function\<close>: a name, a parameter count (a Python int) and the kind, which the
  source keeps as one of the strings \<open>Function\<close>, \<open>Modifier\<close>, \<open>Event\<close>.
\<close>

record Function =
  name :: string
  params :: int
  type :: string

text \<open>\<open>Function.__init__(name, params, fun_type="Function")\<close> with the default kind.\<close>

definition Function_init :: "string \<Rightarrow> int \<Rightarrow> Function" where
  "Function_init n p = \<lparr>name = n, params = p, type = ''Function''\<rparr>"

text \<open>\<open>Function.__eq__\<close>.\<close>

definition Function_eq :: "Function \<Rightarrow> Function \<Rightarrow> bool" where
  "Function_eq self other =
     (Function.name self = Function.name other \<and>
      params self = params other \<and>
      type self = type other)"

text \<open>
  \<open>Function.__hash__\<close> is \<open>hash(self.name)\<close>. Python's built-in string hash is not
  part of the repository, so it is the parameter \<open>hash\<close>.
\<close>

definition Function_hash :: "(string \<Rightarrow> int) \<Rightarrow> Function \<Rightarrow> int" where
  "Function_hash hash self = hash (Function.name self)"

text \<open>
  \<open>class Call\<close>. The constructor stores \<open>context or contract\<close>: a missing context
  and the empty string are both falsy and are replaced by the contract.
\<close>

record Call =
  contract :: string
  "function" :: Function
  "context" :: string

definition Call_init :: "string \<Rightarrow> Function \<Rightarrow> string option \<Rightarrow> Call" where
  "Call_init c f ctx =
     \<lparr>contract = c, function = f,
      context = (case ctx of None \<Rightarrow> c | Some x \<Rightarrow> if x = [] then c else x)\<rparr>"

text \<open>\<open>Call.__eq__\<close>: the context takes no part.\<close>

definition Call_eq :: "Call \<Rightarrow> Call \<Rightarrow> bool" where
  "Call_eq self other =
     (contract self = contract other \<and> Function_eq (function self) (function other))"

text \<open>\<open>Call.__hash__\<close> is \<open>hash(self.function)\<close>.\<close>

definition Call_hash :: "(string \<Rightarrow> int) \<Rightarrow> Call \<Rightarrow> int" where
  "Call_hash hash self = Function_hash hash (function self)"

text \<open>\<open>class Edge\<close> and \<open>Edge.__eq__\<close>.\<close>

record Edge =
  caller :: Call
  callee :: Call

definition Edge_eq :: "Edge \<Rightarrow> Edge \<Rightarrow> bool" where
  "Edge_eq self other =
     (Call_eq (caller self) (caller other) \<and> Call_eq (callee self) (callee other))"

text \<open>
  \<open>class Contract\<close>. The dictionary \<open>functions\<close> is kept with its insertion order
  (the command line iterates over it); \<open>state_user_vars\<close> and \<open>usingfors\<close> are only
  ever subscripted.
\<close>

record Contract =
  name :: string
  base_contracts :: "string list"
  state_user_vars :: "string \<rightharpoonup> string"
  usingfors :: "string \<rightharpoonup> string"
  "functions" :: "(Function \<times> Call list) list"
  linearization :: "string list"

text \<open>
  The module-level dictionary \<open>contracts\<close>, in insertion order. \<open>contracts[k]\<close> is
  \<open>map_of contracts k\<close>, with \<open>None\<close> for the \<open>KeyError\<close>.
\<close>

type_synonym registry = "(string \<times> Contract) list"

section \<open>Linearization engine\<close>

text \<open>
  \<open>all(candidate not in tail for _, *tail in lst)\<close>: the generator unpacks every
  list it reaches, so an empty list raises \<open>ValueError\<close>; \<open>all\<close> stops at the first
  tail holding the candidate.
\<close>

fun not_in_tails :: "'a \<Rightarrow> 'a list list \<Rightarrow> error + bool" where
  "not_in_tails candidate [] = Inr True"
| "not_in_tails candidate ([] # lst) = Inl ValueError"
| "not_in_tails candidate ((h # tail) # lst) =
     (if candidate \<in> set tail then Inr False else not_in_tails candidate lst)"

text \<open>
  \<open>for candidate, *_ in lst: if all(...): ...\<close>: the first head, in the order of
  \<open>lst\<close>, that is in no tail. The first argument is the part of \<open>lst\<close> still to be
  visited. \<open>None\<close> is the \<open>else\<close> branch of the loop.
\<close>

fun find_candidate :: "'a list list \<Rightarrow> 'a list list \<Rightarrow> error + 'a option" where
  "find_candidate [] lst = Inr None"
| "find_candidate ([] # rest) lst = Inl ValueError"
| "find_candidate ((candidate # _) # rest) lst =
     (case not_in_tails candidate lst of
        Inl e \<Rightarrow> Inl e
      | Inr ok \<Rightarrow> if ok then Inr (Some candidate) else find_candidate rest lst)"

text \<open>
  \<open>rec = [tail if head == candidate else [head, *tail] for head, *tail in lst]\<close>.
  It is only evaluated after \<open>all\<close> has unpacked every list of \<open>lst\<close>, so no list is
  empty here.
\<close>

definition drop_candidate :: "'a \<Rightarrow> 'a list list \<Rightarrow> 'a list list" where
  "drop_candidate candidate lst =
     map (\<lambda>l. case l of [] \<Rightarrow> [] | head # tail \<Rightarrow> if head = candidate then tail else head # tail) lst"


lemma find_candidate_Some:
  "find_candidate rest lst = Inr (Some c) \<Longrightarrow>
   (\<exists>l \<in> set rest. l \<noteq> [] \<and> hd l = c) \<and> not_in_tails c lst = Inr True"
  by (induction rest lst rule: find_candidate.induct)
     (auto split: sum.splits if_splits)

lemma sum_length_filter_nonempty:
  "sum_list (map length (filter (\<lambda>l. l \<noteq> []) lst)) = sum_list (map length lst)"
  by (induction lst) auto

lemma sum_length_drop_candidate_le:
  "sum_list (map length (drop_candidate c lst)) \<le> sum_list (map length lst)"
proof (induction lst)
  case Nil
  then show ?case by (simp add: drop_candidate_def)
next
  case (Cons a lst)
  have "length (case a of [] \<Rightarrow> [] | head # tail \<Rightarrow> if head = c then tail else head # tail) \<le> length a"
    by (cases a) simp_all
  with Cons show ?case by (simp add: drop_candidate_def)
qed

lemma sum_length_drop_candidate:
  "l \<in> set lst \<Longrightarrow> l \<noteq> [] \<Longrightarrow> hd l = c \<Longrightarrow>
   sum_list (map length (drop_candidate c lst)) < sum_list (map length lst)"
proof (induction lst)
  case Nil
  then show ?case by simp
next
  case (Cons a lst)
  have step: "drop_candidate c (a # lst) =
      (case a of [] \<Rightarrow> [] | head # tail \<Rightarrow> if head = c then tail else head # tail) # drop_candidate c lst"
    by (simp add: drop_candidate_def)
  have le_a: "length (case a of [] \<Rightarrow> [] | head # tail \<Rightarrow> if head = c then tail else head # tail) \<le> length a"
    by (cases a) simp_all
  show ?case
  proof (cases "a = l")
    case True
    with Cons.prems obtain t where a: "a = c # t" by (cases a) auto
    have "sum_list (map length (drop_candidate c (a # lst))) = length t + sum_list (map length (drop_candidate c lst))"
      unfolding step by (simp add: a)
    also have "\<dots> \<le> length t + sum_list (map length lst)"
      using sum_length_drop_candidate_le [of c lst] by simp
    also have "\<dots> < sum_list (map length (a # lst))"
      by (simp add: a)
    finally show ?thesis .
  next
    case False
    with Cons.prems have "l \<in> set lst" by auto
    from Cons.IH [OF this Cons.prems(2,3)]
    have "sum_list (map length (drop_candidate c lst)) < sum_list (map length lst)" .
    with le_a show ?thesis
      unfolding step by simp
  qed
qed

text \<open>\<open>c3_merge\<close>. \<open>not any(lst)\<close> holds when every list is empty.\<close>

function c3_merge :: "'a list list \<Rightarrow> error + 'a list" where
  "c3_merge lst =
     (if \<not> list_ex (\<lambda>l. l \<noteq> []) lst then Inr []
      else case find_candidate lst lst of
        Inl e \<Rightarrow> Inl e
      | Inr None \<Rightarrow> Inl TypeError
      | Inr (Some candidate) \<Rightarrow>
          (case c3_merge (filter (\<lambda>l. l \<noteq> []) (drop_candidate candidate lst)) of
             Inl e \<Rightarrow> Inl e
           | Inr merged \<Rightarrow> Inr (candidate # merged)))"
  by pat_completeness auto
termination
proof (relation "measure (\<lambda>lst. sum_list (map length lst))")
  show "wf (measure (\<lambda>lst. sum_list (map length lst)))" by simp
next
  fix lst :: "'a list list" and x2 and candidate
  assume "find_candidate lst lst = Inr x2" "x2 = Some candidate"
  then have "find_candidate lst lst = Inr (Some candidate)" by simp
  from find_candidate_Some [OF this]
  obtain l where "l \<in> set lst" "l \<noteq> []" "hd l = candidate"
    by (elim conjE bexE)
  then have "sum_list (map length (filter (\<lambda>l. l \<noteq> []) (drop_candidate candidate lst)))
      < sum_list (map length lst)"
    unfolding sum_length_filter_nonempty by (rule sum_length_drop_candidate)
  then show "(filter (\<lambda>l. l \<noteq> []) (drop_candidate candidate lst), lst)
        \<in> measure (\<lambda>lst. sum_list (map length lst))"
    by simp
qed

declare c3_merge.simps [simp del]

text \<open>
  A list comprehension over calls that may raise or may not return: the elements are
  evaluated from left to right, and the first one that fails decides the outcome.
\<close>

fun collect :: "(error + 'a) option list \<Rightarrow> (error + 'a list) option" where
  "collect [] = Some (Inr [])"
| "collect (None # rs) = None"
| "collect (Some (Inl e) # rs) = Some (Inl e)"
| "collect (Some (Inr x) # rs) =
     (case collect rs of
        None \<Rightarrow> None
      | Some (Inl e) \<Rightarrow> Some (Inl e)
      | Some (Inr xs) \<Rightarrow> Some (Inr (x # xs)))"

text \<open>
  \<open>c3\<close>. The recursion follows the declared bases and does not end on a cyclic
  hierarchy, so the model carries the recursion depth still available; \<open>None\<close> means
  that the depth was used up before the call returned.
\<close>

fun c3 :: "nat \<Rightarrow> registry \<Rightarrow> string \<Rightarrow> (error + string list) option" where
  "c3 0 contracts contract_name = None"
| "c3 (Suc depth) contracts contract_name =
     (case map_of contracts contract_name of
        None \<Rightarrow> Some (Inr [contract_name])
      | Some c \<Rightarrow>
          if base_contracts c = [] then Some (Inr [contract_name])
          else
            (case collect (map (c3 depth contracts) (base_contracts c)) of
               None \<Rightarrow> None
             | Some (Inl e) \<Rightarrow> Some (Inl e)
             | Some (Inr lins) \<Rightarrow>
                 (case c3_merge (lins @ [base_contracts c]) of
                    Inl e \<Rightarrow> Some (Inl e)
                  | Inr merged \<Rightarrow> Some (Inr (contract_name # merged)))))"

text \<open>
  The last loop of \<open>parse_contracts\<close>:
  \<open>for name, contract in contracts.items(): contract.linearization = c3(name, contracts)\<close>.
  \<open>c3\<close> reads only the declared bases, so the entries already updated do not change
  the later results.
\<close>

definition parse_contracts_linearize :: "nat \<Rightarrow> registry \<Rightarrow> (error + registry) option" where
  "parse_contracts_linearize depth contracts =
     (case collect (map (\<lambda>(k, c). c3 depth contracts k) contracts) of
        None \<Rightarrow> None
      | Some (Inl e) \<Rightarrow> Some (Inl e)
      | Some (Inr lins) \<Rightarrow>
          Some (Inr (map (\<lambda>((k, c), lin). (k, c\<lparr>linearization := lin\<rparr>))
                      (zip contracts lins))))"

text \<open>A \<open>Contract(name)\<close> after parsing, before its linearization is computed.\<close>

definition Contract_init :: "string \<Rightarrow> string list \<Rightarrow> (Function \<times> Call list) list \<Rightarrow> Contract" where
  "Contract_init n bases funs =
     \<lparr>name = n, base_contracts = bases, state_user_vars = Map.empty, usingfors = Map.empty,
      functions = funs, linearization = []\<rparr>"

section \<open>Call graph resolver\<close>

text \<open>
  \<open>find_base\<close>. The predicates of \<open>walk_call\<close> receive the Contract object; one of
  them tests the object's identity (\<open>contract is contracts[callee.contract]\<close>). Every
  key of \<open>contracts\<close> holds an object of its own, so identity of the objects is equality
  of the keys, and the model hands the key to the predicate together with the record.
\<close>

fun find_base_loop :: "registry \<Rightarrow> (string \<Rightarrow> Contract \<Rightarrow> bool) \<Rightarrow> string list \<Rightarrow> string option" where
  "find_base_loop contracts predicate [] = None"
| "find_base_loop contracts predicate (base_name # rest) =
     (case map_of contracts base_name of
        None \<Rightarrow> find_base_loop contracts predicate rest
      | Some c \<Rightarrow>
          if predicate base_name c then Some base_name
          else find_base_loop contracts predicate rest)"

definition find_base :: "registry \<Rightarrow> string \<Rightarrow> (string \<Rightarrow> Contract \<Rightarrow> bool) \<Rightarrow> error + string option" where
  "find_base contracts contract_name predicate =
     (case map_of contracts contract_name of
        None \<Rightarrow> Inl KeyError
      | Some c \<Rightarrow> Inr (find_base_loop contracts predicate (linearization c)))"

text \<open>\<open>x in d\<close> for the dictionary \<open>functions\<close>, and \<open>x in lst\<close> for a list of Calls.\<close>

definition has_function :: "Contract \<Rightarrow> Function \<Rightarrow> bool" where
  "has_function c f = (map_of (functions c) f \<noteq> None)"

definition Call_in :: "Call \<Rightarrow> Call list \<Rightarrow> bool" where
  "Call_in x lst = list_ex (\<lambda>y. Call_eq x y) lst"

text \<open>
  The body of the inner loop of \<open>walk_call\<close> up to the construction of \<open>call_to\<close>:
  \<open>Inr None\<close> is a \<open>continue\<close>, \<open>Inl\<close> an exception. \<open>lib_function\<close> and the last
  \<open>search_function\<close> are assigned by the source and not read afterwards. The loop
  variable \<open>callee\<close> of the source is \<open>the_callee\<close> here, \<open>callee\<close> being the
  field of an Edge.
\<close>

definition resolve_call :: "registry \<Rightarrow> Call \<Rightarrow> Call \<Rightarrow> error + Call option" where
  "resolve_call contracts the_callee call =
     (let search_function = (\<lambda>(k::string) c. has_function c (function call));
          context_to = context the_callee
      in
      if contract call = ''this'' \<or> contract call = ''super'' then
        (case (if contract call = ''super''
               then find_base contracts (contract the_callee)
                      (\<lambda>k c. k \<noteq> contract the_callee \<and> has_function c (function call))
               else find_base contracts (context the_callee) search_function) of
           Inl e \<Rightarrow> Inl e
         | Inr None \<Rightarrow> Inr None
         | Inr (Some contract_to) \<Rightarrow>
             Inr (Some (Call_init contract_to (function call) (Some context_to))))
      else
        (case map_of contracts (contract the_callee) of
           None \<Rightarrow> Inl KeyError
         | Some cc \<Rightarrow>
             (case (if contract call \<in> set (linearization cc)
                    then find_base contracts (contract call) search_function
                    else Inr None) of
                Inl e \<Rightarrow> Inl e
              | Inr (Some base_name) \<Rightarrow>
                  Inr (Some (Call_init base_name (function call) (Some context_to)))
              | Inr None \<Rightarrow>
                  (case find_base contracts (contract the_callee)
                          (\<lambda>k c. state_user_vars c (contract call) \<noteq> None) of
                     Inl e \<Rightarrow> Inl e
                   | Inr None \<Rightarrow> Inr None
                   | Inr (Some base_name) \<Rightarrow>
                       (case map_of contracts base_name of
                          None \<Rightarrow> Inl KeyError
                        | Some bc \<Rightarrow>
                            (case state_user_vars bc (contract call) of
                               None \<Rightarrow> Inl KeyError
                             | Some contract_to \<Rightarrow>
                                 if map_of contracts contract_to = None then
                                   (case find_base contracts base_name
                                           (\<lambda>k c. usingfors c contract_to \<noteq> None) of
                                      Inl e \<Rightarrow> Inl e
                                    | Inr None \<Rightarrow> Inl KeyError
                                    | Inr (Some base_usingfor) \<Rightarrow>
                                        (case map_of contracts base_usingfor of
                                           None \<Rightarrow> Inl KeyError
                                         | Some uc \<Rightarrow>
                                             (case usingfors uc contract_to of
                                                None \<Rightarrow> Inl KeyError
                                              | Some library \<Rightarrow>
                                                  let lib_function =
                                                        Function_init (Function.name (function call))
                                                          (params (function call) + 1);
                                                      search_function =
                                                        (\<lambda>(k::string) c. has_function c lib_function)
                                                  in Inr (Some (Call_init library (function call)
                                                                  (Some base_name))))))
                                 else
                                   Inr (Some (Call_init contract_to (function call)
                                                (Some base_name)))))))))"

text \<open>
  \<open>set.add\<close> on a set of Calls or Edges: the hash is a function of a field that the
  equality compares, so an element is added exactly when no equal one is present.
\<close>

definition add_Call :: "Call \<Rightarrow> Call list \<Rightarrow> Call list" where
  "add_Call x s = (if Call_in x s then s else s @ [x])"

definition add_Edge :: "Edge \<Rightarrow> Edge list \<Rightarrow> Edge list" where
  "add_Edge x s = (if list_ex (\<lambda>y. Edge_eq x y) s then s else s @ [x])"

text \<open>
  The inner loop \<open>for call in contracts[callee.contract].functions[callee.function]\<close>,
  on the worklist \<open>calls\<close> and the \<open>defaultdict(set)\<close> \<open>edges\<close>.
\<close>

fun walk_call_inner ::
  "registry \<Rightarrow> Call \<Rightarrow> Call list \<Rightarrow> Call list \<Rightarrow> (string \<Rightarrow> Edge list) \<Rightarrow>
   error + Call list \<times> (string \<Rightarrow> Edge list)"
where
  "walk_call_inner contracts the_callee [] worklist edge_sets = Inr (worklist, edge_sets)"
| "walk_call_inner contracts the_callee (call # rest) worklist edge_sets =
     (case resolve_call contracts the_callee call of
        Inl e \<Rightarrow> Inl e
      | Inr None \<Rightarrow> walk_call_inner contracts the_callee rest worklist edge_sets
      | Inr (Some call_to) \<Rightarrow>
          walk_call_inner contracts the_callee rest
            (if \<not> Call_in call_to worklist then worklist @ [call_to] else worklist)
            (edge_sets(contract the_callee :=
               add_Edge \<lparr>caller = the_callee, callee = call_to\<rparr>
                 (edge_sets (contract the_callee)))))"

text \<open>The state of the outer loop, and one iteration of it at position \<open>i\<close>.\<close>

record walk_state =
  calls :: "Call list"
  nodes :: "string \<Rightarrow> Call list"
  edges :: "string \<Rightarrow> Edge list"

definition walk_call_step :: "registry \<Rightarrow> Call list \<Rightarrow> nat \<Rightarrow> walk_state \<Rightarrow> error + walk_state" where
  "walk_call_step contracts ignore_list i st =
     (let the_callee = calls st ! i;
          nodes' = (nodes st)(contract the_callee := add_Call the_callee (nodes st (contract the_callee)))
      in
      if Call_in the_callee ignore_list then Inr (st\<lparr>nodes := nodes'\<rparr>)
      else
        (case map_of contracts (contract the_callee) of
           None \<Rightarrow> Inl KeyError
         | Some c \<Rightarrow>
             (case map_of (functions c) (function the_callee) of
                None \<Rightarrow> Inl KeyError
              | Some body \<Rightarrow>
                  (case walk_call_inner contracts the_callee body (calls st) (edges st) of
                     Inl e \<Rightarrow> Inl e
                   | Inr (calls', edges') \<Rightarrow>
                       Inr \<lparr>calls = calls', nodes = nodes', edges = edges'\<rparr>))))"

text \<open>
  \<open>for callee in calls\<close> over the list that the loop itself extends: the iteration
  goes on while the position is inside the list.
\<close>

partial_function (option) walk_call_loop ::
  "registry \<Rightarrow> Call list \<Rightarrow> nat \<Rightarrow> walk_state \<Rightarrow> (error + walk_state) option"
where
  "walk_call_loop contracts ignore_list i st =
     (if i < length (calls st) then
        (case walk_call_step contracts ignore_list i st of
           Inl e \<Rightarrow> Some (Inl e)
         | Inr st' \<Rightarrow> walk_call_loop contracts ignore_list (Suc i) st')
      else Some (Inr st))"

text \<open>\<open>walk_call\<close>: the result is the pair \<open>(nodes, edges)\<close>.\<close>

definition walk_call ::
  "registry \<Rightarrow> Call \<Rightarrow> Call list \<Rightarrow>
   (error + (string \<Rightarrow> Call list) \<times> (string \<Rightarrow> Edge list)) option"
where
  "walk_call contracts entry ignore_list =
     (case walk_call_loop contracts ignore_list 0
             \<lparr>calls = [entry],
              nodes = (\<lambda>k. [])(contract entry := [entry]),
              edges = (\<lambda>k. [])\<rparr> of
        None \<Rightarrow> None
      | Some (Inl e) \<Rightarrow> Some (Inl e)
      | Some (Inr st) \<Rightarrow> Some (Inr (nodes st, edges st)))"

text \<open>
  The command line (\<open>__main__\<close>): the entry Call is built from the first function, in
  the order of the requested contract's linearization and of each contract's
  \<open>functions\<close>, that has the requested name, kind \<open>Function\<close> and, when a count is
  given, that parameter count.
\<close>

definition entry_call :: "registry \<Rightarrow> string \<Rightarrow> string \<Rightarrow> int option \<Rightarrow> error + Call" where
  "entry_call contracts contract_name fname count =
     (case map_of contracts contract_name of
        None \<Rightarrow> Inl SystemExit
      | Some c \<Rightarrow>
          (let found = concat (map (\<lambda>b. case map_of contracts b of
                                           None \<Rightarrow> []
                                         | Some bc \<Rightarrow> map (\<lambda>(f, body). (f, b)) (functions bc))
                                (linearization c));
               named = filter (\<lambda>(f, b). Function.name f = fname \<and> type f = ''Function'') found
           in
           if named = [] then Inl SystemExit
           else
             (let counted = (case count of
                               None \<Rightarrow> named
                             | Some n \<Rightarrow> filter (\<lambda>(f, b). params f = n) named)
              in
              if counted = [] then Inl SystemExit
              else Inr (Call_init contract_name (fst (hd counted)) None))))"

section \<open>Notions used to state the properties\<close>





text \<open>
  \<open>b\<close> is the first name of the list \<open>bs\<close> that is a key of the registry and whose
  contract satisfies the predicate.
\<close>

definition first_base ::
  "registry \<Rightarrow> (string \<Rightarrow> Contract \<Rightarrow> bool) \<Rightarrow> string list \<Rightarrow> string \<Rightarrow> bool"
where
  "first_base contracts predicate bs b =
     (\<exists>pre post. bs = pre @ b # post \<and>
        (\<forall>x \<in> set pre. \<not> (\<exists>c. map_of contracts x = Some c \<and> predicate x c)) \<and>
        (\<exists>c. map_of contracts b = Some c \<and> predicate b c))"

text \<open>The pair that \<open>Call.__eq__\<close> compares.\<close>

definition call_key :: "Call \<Rightarrow> string \<times> Function" where
  "call_key c = (contract c, function c)"

text \<open>Every Call recorded in a call list of the registry.\<close>

definition body_calls :: "registry \<Rightarrow> Call set" where
  "body_calls contracts =
     (\<Union>(k, c) \<in> set contracts. \<Union>(f, body) \<in> set (functions c). set body)"

text \<open>
  The contract names a call with receiver \<open>r\<close> can be resolved to: a key of the
  registry, the declared type of a state variable \<open>r\<close>, or a library attached to
  such a type.
\<close>

definition target_names :: "registry \<Rightarrow> string \<Rightarrow> string set" where
  "target_names contracts r =
     fst ` set contracts \<union>
     (\<Union>(k, c) \<in> set contracts. set_option (state_user_vars c r)) \<union>
     (\<Union>(k, c) \<in> set contracts. \<Union>(k', c') \<in> set contracts.
        \<Union>v \<in> set_option (state_user_vars c r). set_option (usingfors c' v))"

definition target_keys :: "registry \<Rightarrow> (string \<times> Function) set" where
  "target_keys contracts =
     (\<Union>call \<in> body_calls contracts. target_names contracts (contract call) \<times> {function call})"

text \<open>
  The quantity that bounds the traversal: the length of the worklist plus the number
  of target keys not yet in it.
\<close>

definition walk_measure :: "registry \<Rightarrow> Call list \<Rightarrow> nat" where
  "walk_measure contracts wl = length wl + card (target_keys contracts - call_key ` set wl)"

text \<open>
  What the graph holds for a dequeued call \<open>n\<close> that is not ignored: every call
  of its body that resolves has its target in the worklist and its edge recorded.
\<close>

definition expanded :: "registry \<Rightarrow> Call list \<Rightarrow> Call list \<Rightarrow> (string \<Rightarrow> Edge list) \<Rightarrow> Call \<Rightarrow> bool" where
  "expanded contracts ignore_list wl es n =
     (\<not> Call_in n ignore_list \<longrightarrow>
      (\<forall>c body call t.
         map_of contracts (contract n) = Some c \<longrightarrow>
         map_of (functions c) (function n) = Some body \<longrightarrow>
         call \<in> set body \<longrightarrow>
         resolve_call contracts n call = Inr (Some t) \<longrightarrow>
         Call_in t wl \<and> (\<exists>e \<in> set (es (contract n)). Edge_eq \<lparr>caller = n, callee = t\<rparr> e)))"

text \<open>The invariant of the outer loop at position \<open>i\<close>.\<close>

definition walk_inv :: "registry \<Rightarrow> Call list \<Rightarrow> nat \<Rightarrow> walk_state \<Rightarrow> bool" where
  "walk_inv contracts ignore_list i st =
     (i \<le> length (calls st) \<and>
      distinct (map call_key (calls st)) \<and>
      (\<forall>k. set (take i (calls st)) \<inter> {c. contract c = k} \<subseteq> set (nodes st k)) \<and>
      (\<forall>k. set (nodes st k) \<subseteq> set (calls st) \<inter> {c. contract c = k}) \<and>
      (\<forall>k. \<forall>e \<in> set (edges st k). \<not> Call_in (caller e) ignore_list) \<and>
      (\<forall>j < i. expanded contracts ignore_list (calls st) (edges st) (calls st ! j)))"

section \<open>Example registries\<close>




text \<open>
  A linear chain, with the linearizations stored: \<open>contract A { foo() }\<close>,
  \<open>contract B is A { foo() { super.foo() } }\<close> and
  \<open>contract C is B { foo() { super.foo() }  bar() { A.foo() } }\<close>.
\<close>

definition foo :: Function where
  "foo = Function_init ''foo'' 0"

definition bar :: Function where
  "bar = Function_init ''bar'' 0"

definition chain_parsed :: registry where
  "chain_parsed =
     [(''A'', Contract_init ''A'' [] [(foo, [])]),
      (''B'', Contract_init ''B'' [''A''] [(foo, [Call_init ''super'' foo None])]),
      (''C'', Contract_init ''C'' [''B'']
                [(foo, [Call_init ''super'' foo None]), (bar, [Call_init ''A'' foo None])])]"

definition chain :: registry where
  "chain =
     [(''A'', (Contract_init ''A'' [] [(foo, [])])\<lparr>linearization := [''A'']\<rparr>),
      (''B'', (Contract_init ''B'' [''A''] [(foo, [Call_init ''super'' foo None])])
                \<lparr>linearization := [''B'', ''A'']\<rparr>),
      (''C'', (Contract_init ''C'' [''B'']
                 [(foo, [Call_init ''super'' foo None]), (bar, [Call_init ''A'' foo None])])
                \<lparr>linearization := [''C'', ''B'', ''A'']\<rparr>)]"

text \<open>
  An inherited body running in a derived context:
  \<open>contract B { f() { g() }  g() }\<close> and \<open>contract D is B { g()  h() { f() } }\<close>.
\<close>

definition fun_f :: Function where
  "fun_f = Function_init ''f'' 0"

definition fun_g :: Function where
  "fun_g = Function_init ''g'' 0"

definition fun_h :: Function where
  "fun_h = Function_init ''h'' 0"

definition inherit :: registry where
  "inherit =
     [(''B'', (Contract_init ''B'' [] [(fun_f, [Call_init ''this'' fun_g None]), (fun_g, [])])
                \<lparr>linearization := [''B'']\<rparr>),
      (''D'', (Contract_init ''D'' [''B'']
                 [(fun_g, []), (fun_h, [Call_init ''this'' fun_f None])])
                \<lparr>linearization := [''D'', ''B'']\<rparr>)]"

text \<open>
  An external call through a state variable whose contract type only inherits the
  called function: \<open>contract Base { g() }\<close>, \<open>contract T is Base { }\<close> and
  \<open>contract U { T t; h() { t.g() } }\<close>.
\<close>

definition external :: registry where
  "external =
     [(''Base'', (Contract_init ''Base'' [] [(fun_g, [])])\<lparr>linearization := [''Base'']\<rparr>),
      (''T'', (Contract_init ''T'' [''Base'' ] [])\<lparr>linearization := [''T'', ''Base'']\<rparr>),
      (''U'', (Contract_init ''U'' [] [(fun_h, [Call_init ''t'' fun_g None])])
                \<lparr>state_user_vars := [''t'' \<mapsto> ''T''], linearization := [''U'']\<rparr>)]"

text \<open>
  A library attached to a struct type:
  \<open>library Lib { inc(Counter storage self) }\<close> and
  \<open>contract Wallet { using Lib for Counter; Counter c; f() { c.inc() } }\<close>.
\<close>

definition inc0 :: Function where
  "inc0 = Function_init ''inc'' 0"

definition inc1 :: Function where
  "inc1 = Function_init ''inc'' 1"

definition wallet :: registry where
  "wallet =
     [(''Lib'', (Contract_init ''Lib'' [] [(inc1, [])])\<lparr>linearization := [''Lib'']\<rparr>),
      (''Wallet'', (Contract_init ''Wallet'' [] [(fun_f, [Call_init ''c'' inc0 None])])
                     \<lparr>state_user_vars := [''c'' \<mapsto> ''Counter''],
                      usingfors := [''Counter'' \<mapsto> ''Lib''],
                      linearization := [''Wallet'']\<rparr>)]"

text \<open>
  \<open>contract Token { approve(a, b) { _approve(x, a, b) }  _approve(a, b, c) { log() }  log() }\<close>.
\<close>

definition approve :: Function where
  "approve = Function_init ''approve'' 2"

definition approve' :: Function where
  "approve' = Function_init ''_approve'' 3"

definition log0 :: Function where
  "log0 = Function_init ''log'' 0"

definition token :: registry where
  "token =
     [(''Token'', (Contract_init ''Token'' []
                     [(approve, [Call_init ''this'' approve' None]),
                      (approve', [Call_init ''this'' log0 None]),
                      (log0, [])])
                    \<lparr>linearization := [''Token'']\<rparr>)]"

text \<open>Mutual recursion: \<open>contract R { ping() { pong() }  pong() { ping() } }\<close>.\<close>

definition ping :: Function where
  "ping = Function_init ''ping'' 0"

definition pong :: Function where
  "pong = Function_init ''pong'' 0"

definition pingpong :: registry where
  "pingpong =
     [(''R'', (Contract_init ''R'' []
                 [(ping, [Call_init ''this'' pong None]), (pong, [Call_init ''this'' ping None])])
                \<lparr>linearization := [''R'']\<rparr>)]"

section \<open>Evaluation of the resolver on concrete registries\<close>

lemmas walk_eval =
  walk_call_def walk_call_loop.simps walk_call_step_def Let_def resolve_call_def
  Contract_init_def Call_init_def Function_init_def find_base_def has_function_def
  Call_in_def Call_eq_def Function_eq_def add_Call_def add_Edge_def Edge_eq_def

section \<open>Function identity\<close>

lemma Function_eq_iff: "Function_eq a b \<longleftrightarrow> a = b"
  by (cases a, cases b) (auto simp: Function_eq_def)

text \<open>
  C9 (as the code has it). Two Functions are equal exactly when name, parameter count
  and kind all agree, but the hash is computed from the name alone: it is consistent
  with equality (equal Functions hash equally), and any two Functions sharing a name
  hash equally whatever their parameter counts and kinds.
\<close>

theorem Function_identity:
  "(Function_eq a b \<longleftrightarrow> a = b) \<and>
   (Function_eq a b \<longrightarrow> Function_hash hash a = Function_hash hash b) \<and>
   (Function.name a = Function.name b \<longrightarrow> Function_hash hash a = Function_hash hash b)"
  by (cases a, cases b) (auto simp: Function_eq_def Function_hash_def)

theorem Function_identity_witness:
  "Function.name (Function_init ''approve'' 2) = Function.name (Function_init ''approve'' 3) \<and>
   Function_hash (\<lambda>s. int (length s)) (Function_init ''approve'' 2) =
     Function_hash (\<lambda>s. int (length s)) (Function_init ''approve'' 3) \<and>
   Function_eq (Function_init ''approve'' 2) (Function_init ''approve'' 2)"
  using Function_identity [of "Function_init ''approve'' 2" "Function_init ''approve'' 3"
      "\<lambda>s. int (length s)"]
    Function_identity [of "Function_init ''approve'' 2" "Function_init ''approve'' 2"
      "\<lambda>s. int (length s)"]
  by (simp add: Function_init_def)

text \<open>
  C9 as stated fails on the hash: it does not depend on all three fields. The
  overloads \<open>approve/2\<close> and \<open>approve/3\<close> are unequal, yet they have the same hash
  under every string hash.
\<close>

theorem Function_hash_counterexample:
  "\<not> Function_eq (Function_init ''approve'' 2) (Function_init ''approve'' 3) \<and>
   (\<forall>hash. Function_hash hash (Function_init ''approve'' 2) =
            Function_hash hash (Function_init ''approve'' 3))"
  by (simp add: Function_eq_def Function_hash_def Function_init_def)

section \<open>Properties of the merge\<close>













section \<open>Properties of the linearization\<close>



































section \<open>Properties of the resolution of one call\<close>

lemma find_base_loop_Some_iff:
  "find_base_loop contracts p bs = Some b \<longleftrightarrow> first_base contracts p bs b"
proof (induction bs)
  case Nil
  then show ?case by (simp add: first_base_def)
next
  case (Cons a bs)
  show ?case
  proof (cases "\<exists>c. map_of contracts a = Some c \<and> p a c")
    case True
    then have f: "find_base_loop contracts p (a # bs) = Some a" by auto
    have "first_base contracts p (a # bs) b \<longleftrightarrow> b = a"
    proof
      assume "first_base contracts p (a # bs) b"
      then obtain pre post where pp: "a # bs = pre @ b # post"
        "\<forall>x \<in> set pre. \<not> (\<exists>c. map_of contracts x = Some c \<and> p x c)"
        unfolding first_base_def by blast
      show "b = a"
      proof (cases pre)
        case Nil
        with pp(1) show ?thesis by simp
      next
        case (Cons x pre')
        with pp(1) have "x = a" by simp
        with Cons pp(2) True show ?thesis by auto
      qed
    next
      assume "b = a"
      with True show "first_base contracts p (a # bs) b"
        unfolding first_base_def by (intro exI [of _ "[]"] exI [of _ bs]) simp
    qed
    with f show ?thesis by auto
  next
    case False
    then have f: "find_base_loop contracts p (a # bs) = find_base_loop contracts p bs"
      by (auto split: option.splits)
    have "first_base contracts p (a # bs) b \<longleftrightarrow> first_base contracts p bs b"
    proof
      assume "first_base contracts p (a # bs) b"
      then obtain pre post where pp: "a # bs = pre @ b # post"
        "\<forall>x \<in> set pre. \<not> (\<exists>c. map_of contracts x = Some c \<and> p x c)"
        "\<exists>c. map_of contracts b = Some c \<and> p b c"
        unfolding first_base_def by blast
      show "first_base contracts p bs b"
      proof (cases pre)
        case Nil
        with pp(1,3) False show ?thesis by simp
      next
        case (Cons x pre')
        with pp have "bs = pre' @ b # post"
          "\<forall>x \<in> set pre'. \<not> (\<exists>c. map_of contracts x = Some c \<and> p x c)" by simp_all
        with pp(3) show ?thesis unfolding first_base_def by blast
      qed
    next
      assume "first_base contracts p bs b"
      then obtain pre post where pp: "bs = pre @ b # post"
        "\<forall>x \<in> set pre. \<not> (\<exists>c. map_of contracts x = Some c \<and> p x c)"
        "\<exists>c. map_of contracts b = Some c \<and> p b c"
        unfolding first_base_def by blast
      from pp(1) have "a # bs = (a # pre) @ b # post" by simp
      moreover from pp(2) False
      have "\<forall>x \<in> set (a # pre). \<not> (\<exists>c. map_of contracts x = Some c \<and> p x c)" by simp
      ultimately show "first_base contracts p (a # bs) b"
        using pp(3) unfolding first_base_def by blast
    qed
    with f Cons.IH show ?thesis by simp
  qed
qed

lemma find_base_loop_None_iff:
  "find_base_loop contracts p bs = None \<longleftrightarrow> (\<forall>b. \<not> first_base contracts p bs b)"
  using find_base_loop_Some_iff [of contracts p bs] by (cases "find_base_loop contracts p bs") auto

lemma first_base_unique:
  "first_base contracts p bs b \<Longrightarrow> first_base contracts p bs b' \<Longrightarrow> b = b'"
  using find_base_loop_Some_iff [of contracts p bs] by (metis option.inject)

lemma context_Call_init:
  "context (Call_init c f (Some x)) = (if x = [] then c else x)"
  "contract (Call_init c f ctx) = c"
  "function (Call_init c f ctx) = f"
  by (simp_all add: Call_init_def)

lemma resolve_call_this:
  assumes "contract call = ''this''" and "map_of contracts (context the_callee) = Some ctx"
  shows "resolve_call contracts the_callee call =
     (case find_base_loop contracts (\<lambda>k c. has_function c (function call)) (linearization ctx) of
        None \<Rightarrow> Inr None
      | Some b \<Rightarrow> Inr (Some (Call_init b (function call) (Some (context the_callee)))))"
  using assms by (simp add: resolve_call_def find_base_def)

lemma resolve_call_super:
  assumes "contract call = ''super''" and "map_of contracts (contract the_callee) = Some cc"
  shows "resolve_call contracts the_callee call =
     (case find_base_loop contracts
             (\<lambda>k c. k \<noteq> contract the_callee \<and> has_function c (function call))
             (linearization cc) of
        None \<Rightarrow> Inr None
      | Some b \<Rightarrow> Inr (Some (Call_init b (function call) (Some (context the_callee)))))"
  using assms by (simp add: resolve_call_def find_base_def)

text \<open>
  C3. An internal call (receiver \<open>this\<close>) is resolved in the linearization of the
  callee's context, from left to right: the target is the first contract of that
  list that is in the registry and defines the called function; with no such contract
  the call is dropped. The callee's own contract plays no part.
\<close>

theorem internal_call_resolution:
  assumes "contract call = ''this''" and "map_of contracts (context the_callee) = Some ctx"
  shows "(resolve_call contracts the_callee call = Inr (Some t) \<longleftrightarrow>
            first_base contracts (\<lambda>k c. has_function c (function call))
              (linearization ctx) (contract t) \<and>
            t = Call_init (contract t) (function call) (Some (context the_callee))) \<and>
         (resolve_call contracts the_callee call = Inr None \<longleftrightarrow>
            (\<forall>b. \<not> first_base contracts (\<lambda>k c. has_function c (function call))
                    (linearization ctx) b)) \<and>
         (\<forall>e. resolve_call contracts the_callee call \<noteq> Inl e)"
proof (cases "find_base_loop contracts (\<lambda>k c. has_function c (function call)) (linearization ctx)")
  case None
  then have "resolve_call contracts the_callee call = Inr None"
    by (simp add: resolve_call_this [OF assms])
  moreover from None
  have "\<forall>b. \<not> first_base contracts (\<lambda>k c. has_function c (function call)) (linearization ctx) b"
    by (simp add: find_base_loop_None_iff)
  ultimately show ?thesis by simp
next
  case (Some b)
  then have r: "resolve_call contracts the_callee call =
      Inr (Some (Call_init b (function call) (Some (context the_callee))))"
    by (simp add: resolve_call_this [OF assms])
  from Some
  have fb: "first_base contracts (\<lambda>k c. has_function c (function call)) (linearization ctx) b"
    by (simp add: find_base_loop_Some_iff)
  have "Call_init b (function call) (Some (context the_callee)) = t \<longleftrightarrow>
        first_base contracts (\<lambda>k c. has_function c (function call))
          (linearization ctx) (contract t) \<and>
        t = Call_init (contract t) (function call) (Some (context the_callee))"
  proof
    assume "Call_init b (function call) (Some (context the_callee)) = t"
    then have t: "t = Call_init b (function call) (Some (context the_callee))" by simp
    then have "contract t = b" by (simp add: context_Call_init)
    with fb t show "first_base contracts (\<lambda>k c. has_function c (function call))
          (linearization ctx) (contract t) \<and>
        t = Call_init (contract t) (function call) (Some (context the_callee))"
      by simp
  next
    assume "first_base contracts (\<lambda>k c. has_function c (function call))
          (linearization ctx) (contract t) \<and>
        t = Call_init (contract t) (function call) (Some (context the_callee))"
    with first_base_unique [OF fb, of "contract t"]
    show "Call_init b (function call) (Some (context the_callee)) = t" by simp
  qed
  moreover from fb
  have "\<not> (\<forall>b. \<not> first_base contracts (\<lambda>k c. has_function c (function call))
                (linearization ctx) b)" by blast
  ultimately show ?thesis by (simp add: r)
qed

theorem internal_call_resolution_witness:
  "resolve_call inherit (Call_init ''B'' fun_f (Some ''D'')) (Call_init ''this'' fun_g None) =
     Inr (Some (Call_init ''D'' fun_g (Some ''D''))) \<and>
   first_base inherit (\<lambda>k c. has_function c fun_g) [''D'', ''B''] ''D''"
proof -
  have r: "resolve_call inherit (Call_init ''B'' fun_f (Some ''D'')) (Call_init ''this'' fun_g None) =
     Inr (Some (Call_init ''D'' fun_g (Some ''D'')))"
    by (simp add: resolve_call_def inherit_def Contract_init_def Call_init_def find_base_def
        has_function_def fun_f_def fun_g_def fun_h_def Function_init_def)
  have c: "contract (Call_init ''this'' fun_g None) = ''this''"
    by (simp add: Call_init_def)
  have m: "map_of inherit (context (Call_init ''B'' fun_f (Some ''D''))) =
      Some ((Contract_init ''D'' [''B''] [(fun_g, []), (fun_h, [Call_init ''this'' fun_f None])])
              \<lparr>linearization := [''D'', ''B'']\<rparr>)"
    by (simp add: inherit_def Call_init_def)
  from internal_call_resolution [OF c m, of "Call_init ''D'' fun_g (Some ''D'')"] r
  show ?thesis by (simp add: Call_init_def)
qed

text \<open>
  C2. A \<open>super\<close> call is resolved in the linearization of the callee's contract, from
  left to right, over the entries other than the callee's contract itself: the target
  is the first such contract that is in the registry and defines the called function;
  the callee's contract is never the target, and with no such contract the call is
  dropped.
\<close>

theorem super_call_resolution:
  assumes "contract call = ''super''" and "map_of contracts (contract the_callee) = Some cc"
  shows "(resolve_call contracts the_callee call = Inr (Some t) \<longleftrightarrow>
            first_base contracts
              (\<lambda>k c. k \<noteq> contract the_callee \<and> has_function c (function call))
              (linearization cc) (contract t) \<and>
            t = Call_init (contract t) (function call) (Some (context the_callee))) \<and>
         (resolve_call contracts the_callee call = Inr (Some t) \<longrightarrow>
            contract t \<noteq> contract the_callee) \<and>
         (resolve_call contracts the_callee call = Inr None \<longleftrightarrow>
            (\<forall>b. \<not> first_base contracts
                    (\<lambda>k c. k \<noteq> contract the_callee \<and> has_function c (function call))
                    (linearization cc) b))"
proof (cases "find_base_loop contracts
                (\<lambda>k c. k \<noteq> contract the_callee \<and> has_function c (function call))
                (linearization cc)")
  case None
  then have "resolve_call contracts the_callee call = Inr None"
    by (simp add: resolve_call_super [OF assms])
  moreover from None
  have "\<forall>b. \<not> first_base contracts
                (\<lambda>k c. k \<noteq> contract the_callee \<and> has_function c (function call))
                (linearization cc) b"
    by (simp add: find_base_loop_None_iff)
  ultimately show ?thesis by simp
next
  case (Some b)
  then have r: "resolve_call contracts the_callee call =
      Inr (Some (Call_init b (function call) (Some (context the_callee))))"
    by (simp add: resolve_call_super [OF assms])
  from Some
  have fb: "first_base contracts
              (\<lambda>k c. k \<noteq> contract the_callee \<and> has_function c (function call))
              (linearization cc) b"
    by (simp add: find_base_loop_Some_iff)
  then have ne: "b \<noteq> contract the_callee"
    unfolding first_base_def by blast
  have "Call_init b (function call) (Some (context the_callee)) = t \<longleftrightarrow>
        first_base contracts
          (\<lambda>k c. k \<noteq> contract the_callee \<and> has_function c (function call))
          (linearization cc) (contract t) \<and>
        t = Call_init (contract t) (function call) (Some (context the_callee))"
  proof
    assume "Call_init b (function call) (Some (context the_callee)) = t"
    then have t: "t = Call_init b (function call) (Some (context the_callee))" by simp
    then have "contract t = b" by (simp add: context_Call_init)
    with fb t show "first_base contracts
          (\<lambda>k c. k \<noteq> contract the_callee \<and> has_function c (function call))
          (linearization cc) (contract t) \<and>
        t = Call_init (contract t) (function call) (Some (context the_callee))"
      by simp
  next
    assume "first_base contracts
          (\<lambda>k c. k \<noteq> contract the_callee \<and> has_function c (function call))
          (linearization cc) (contract t) \<and>
        t = Call_init (contract t) (function call) (Some (context the_callee))"
    with first_base_unique [OF fb, of "contract t"]
    show "Call_init b (function call) (Some (context the_callee)) = t" by simp
  qed
  moreover from fb
  have "\<not> (\<forall>b. \<not> first_base contracts
                (\<lambda>k c. k \<noteq> contract the_callee \<and> has_function c (function call))
                (linearization cc) b)" by blast
  moreover have "contract (Call_init b (function call) (Some (context the_callee))) \<noteq> contract the_callee"
    using ne by (simp add: context_Call_init)
  ultimately show ?thesis by (auto simp: r)
qed

theorem super_call_resolution_witness:
  "parse_contracts_linearize 3 chain_parsed = Some (Inr chain) \<and>
   resolve_call chain (Call_init ''C'' foo None) (Call_init ''super'' foo None) =
     Inr (Some (Call_init ''B'' foo (Some ''C''))) \<and>
   first_base chain (\<lambda>k c. k \<noteq> ''C'' \<and> has_function c foo) [''C'', ''B'', ''A''] ''B'' \<and>
   contract (Call_init ''B'' foo (Some ''C'')) \<noteq> ''C'' \<and>
   contract (Call_init ''B'' foo (Some ''C'')) \<noteq> ''A''"
proof -
  have p: "parse_contracts_linearize 3 chain_parsed = Some (Inr chain)"
    by (simp add: parse_contracts_linearize_def chain_parsed_def chain_def Contract_init_def
        c3_merge.simps drop_candidate_def numeral_3_eq_3)
  have r: "resolve_call chain (Call_init ''C'' foo None) (Call_init ''super'' foo None) =
     Inr (Some (Call_init ''B'' foo (Some ''C'')))"
    by (simp add: resolve_call_def chain_def Contract_init_def Call_init_def find_base_def
        has_function_def foo_def bar_def Function_init_def)
  have c: "contract (Call_init ''super'' foo None) = ''super''"
    by (simp add: Call_init_def)
  have m: "map_of chain (contract (Call_init ''C'' foo None)) =
      Some ((Contract_init ''C'' [''B'']
               [(foo, [Call_init ''super'' foo None]), (bar, [Call_init ''A'' foo None])])
              \<lparr>linearization := [''C'', ''B'', ''A'']\<rparr>)"
    by (simp add: chain_def Call_init_def)
  from super_call_resolution [OF c m, of "Call_init ''B'' foo (Some ''C'')"] r p
  show ?thesis by (simp add: Call_init_def)
qed

text \<open>
  C4 (as the code has it). A call whose receiver is a contract name of the callee's
  contract's linearization, when that ancestor is in the registry and its
  linearization holds a contract defining the called function, is resolved to the
  first such contract of the ancestor's linearization. The context of the target is
  the callee's context, unchanged (the target's own contract when that context is the
  empty string); it is not the ancestor.
\<close>

theorem direct_base_call_resolution:
  assumes "contract call \<noteq> ''this''" and "contract call \<noteq> ''super''"
    and "map_of contracts (contract the_callee) = Some cc"
    and "contract call \<in> set (linearization cc)"
    and "map_of contracts (contract call) = Some ancestor"
    and "first_base contracts (\<lambda>k c. has_function c (function call)) (linearization ancestor) b"
  shows "resolve_call contracts the_callee call =
           Inr (Some (Call_init b (function call) (Some (context the_callee)))) \<and>
         context (Call_init b (function call) (Some (context the_callee))) =
           (if context the_callee = [] then b else context the_callee)"
proof -
  from assms(6)
  have "find_base_loop contracts (\<lambda>k c. has_function c (function call)) (linearization ancestor) = Some b"
    by (simp add: find_base_loop_Some_iff)
  with assms(1-5) show ?thesis
    by (simp add: resolve_call_def find_base_def context_Call_init)
qed

theorem direct_base_call_resolution_witness:
  "resolve_call chain (Call_init ''C'' bar None) (Call_init ''A'' foo None) =
     Inr (Some (Call_init ''A'' foo (Some ''C''))) \<and>
   first_base chain (\<lambda>k c. has_function c foo) [''A''] ''A'' \<and>
   context (Call_init ''A'' foo (Some ''C'')) = ''C''"
proof -
  have fb: "first_base chain (\<lambda>k c. has_function c foo) [''A''] ''A''"
    unfolding first_base_def
    by (intro exI [of _ "[]"]) (simp add: chain_def Contract_init_def has_function_def)
  have m: "map_of chain (contract (Call_init ''C'' bar None)) =
      Some ((Contract_init ''C'' [''B'']
               [(foo, [Call_init ''super'' foo None]), (bar, [Call_init ''A'' foo None])])
              \<lparr>linearization := [''C'', ''B'', ''A'']\<rparr>)"
    by (simp add: chain_def Call_init_def)
  have a: "map_of chain (contract (Call_init ''A'' foo None)) =
      Some ((Contract_init ''A'' [] [(foo, [])])\<lparr>linearization := [''A'']\<rparr>)"
    by (simp add: chain_def Call_init_def)
  from direct_base_call_resolution [OF _ _ m _ a, of "''A''"] fb
  show ?thesis by (simp add: Call_init_def)
qed

text \<open>
  C4 as stated fails on the context of the target, which is not the ancestor:
  \<open>A.foo()\<close> called in \<open>C.bar\<close>
  resolves to \<open>A.foo\<close> with the context \<open>C\<close> of the caller, while \<open>A\<close> is the
  receiver named in the call and is in the linearization of \<open>C\<close>.
\<close>

theorem direct_base_call_context_counterexample:
  "resolve_call chain (Call_init ''C'' bar None) (Call_init ''A'' foo None) =
     Inr (Some \<lparr>contract = ''A'', function = foo, context = ''C''\<rparr>) \<and>
   contract (Call_init ''A'' foo None) \<in> set [''C'', ''B'', ''A''] \<and>
   context \<lparr>contract = ''A'', function = foo, context = ''C''\<rparr> \<noteq>
     contract (Call_init ''A'' foo None)"
  by (simp add: resolve_call_def chain_def Contract_init_def Call_init_def find_base_def
      has_function_def foo_def bar_def Function_init_def)

text \<open>
  C1 at the failing input. The call \<open>c.inc()\<close> with no argument, on a state variable
  whose type has the library \<open>Lib\<close> attached, is resolved to \<open>Lib\<close> with the
  function of the call unchanged: the parameter count of the target is 0, not 1. The
  target is then looked up in \<open>Lib\<close>, which defines \<open>inc\<close> with one parameter, and the
  traversal ends with a \<open>KeyError\<close>.
\<close>

theorem using_for_call_keeps_params:
  "resolve_call wallet (Call_init ''Wallet'' fun_f None) (Call_init ''c'' inc0 None) =
     Inr (Some (Call_init ''Lib'' inc0 (Some ''Wallet''))) \<and>
   params (function (Call_init ''Lib'' inc0 (Some ''Wallet''))) = 0 \<and>
   params (function (Call_init ''c'' inc0 None)) + 1 = 1 \<and>
   walk_call wallet (Call_init ''Wallet'' fun_f None) [] = Some (Inl KeyError)"
  by (simp add: walk_eval wallet_def fun_f_def inc0_def inc1_def)

text \<open>
  C10. The call list of a dequeued Call is looked up in the function dictionary of the
  Call's own contract only. When that contract does not itself define the function,
  the traversal ends with a \<open>KeyError\<close>, whatever the contract's linearization holds:
  the call is neither resolved through a base nor dropped.
\<close>

theorem walk_call_missing_function:
  assumes "i < length (calls st)"
    and "\<not> Call_in (calls st ! i) ignore_list"
    and "map_of contracts (contract (calls st ! i)) = Some c"
    and "\<not> has_function c (function (calls st ! i))"
  shows "walk_call_loop contracts ignore_list i st = Some (Inl KeyError)"
proof -
  from assms(4) have "map_of (functions c) (function (calls st ! i)) = None"
    by (simp add: has_function_def)
  with assms(2,3) have "walk_call_step contracts ignore_list i st = Inl KeyError"
    by (simp add: walk_call_step_def Let_def)
  with assms(1) show ?thesis
    by (subst walk_call_loop.simps) simp
qed

theorem walk_call_missing_function_witness:
  "entry_call inherit ''D'' ''f'' None = Inr (Call_init ''D'' fun_f None) \<and>
   has_function (the (map_of inherit ''B'')) fun_f \<and>
   linearization (the (map_of inherit ''D'')) = [''D'', ''B''] \<and>
   walk_call inherit (Call_init ''D'' fun_f None) [] = Some (Inl KeyError) \<and>
   has_function (the (map_of external ''Base'')) fun_g \<and>
   linearization (the (map_of external ''T'')) = [''T'', ''Base''] \<and>
   walk_call external (Call_init ''U'' fun_h None) [] = Some (Inl KeyError)"
proof -
  have e: "entry_call inherit ''D'' ''f'' None = Inr (Call_init ''D'' fun_f None)"
    by (simp add: entry_call_def inherit_def Contract_init_def Call_init_def Function_init_def
        fun_f_def fun_g_def fun_h_def)
  have b: "has_function (the (map_of inherit ''B'')) fun_f"
    "linearization (the (map_of inherit ''D'')) = [''D'', ''B'']"
    by (simp_all add: inherit_def Contract_init_def has_function_def)
  have x: "has_function (the (map_of external ''Base'')) fun_g"
    "linearization (the (map_of external ''T'')) = [''T'', ''Base'']"
    by (simp_all add: external_def Contract_init_def has_function_def)
  have "walk_call_loop inherit [] 0
          \<lparr>calls = [Call_init ''D'' fun_f None],
           nodes = (\<lambda>k. [])(contract (Call_init ''D'' fun_f None) := [Call_init ''D'' fun_f None]),
           edges = (\<lambda>k. [])\<rparr> = Some (Inl KeyError)"
    by (rule walk_call_missing_function [where c = "the (map_of inherit ''D'')"])
       (simp_all add: inherit_def Contract_init_def Call_init_def Function_init_def
          has_function_def Call_in_def fun_f_def fun_g_def fun_h_def)
  then have w1: "walk_call inherit (Call_init ''D'' fun_f None) [] = Some (Inl KeyError)"
    by (simp add: walk_call_def)
  have w2: "walk_call external (Call_init ''U'' fun_h None) [] = Some (Inl KeyError)"
    by (simp add: walk_eval external_def fun_g_def fun_h_def)
  from e b x w1 w2 show ?thesis by simp
qed

section \<open>Termination of the traversal\<close>

lemma Call_eq_key: "Call_eq a b \<longleftrightarrow> call_key a = call_key b"
  by (simp add: Call_eq_def call_key_def Function_eq_iff)

lemma Call_in_key: "Call_in x lst \<longleftrightarrow> call_key x \<in> call_key ` set lst"
  by (auto simp: Call_in_def list_ex_iff Call_eq_key)

lemma finite_body_calls: "finite (body_calls contracts)"
  unfolding body_calls_def by (intro finite_UN_I) (auto split: prod.splits)

lemma finite_target_names: "finite (target_names contracts r)"
  unfolding target_names_def
  by (intro finite_UnI finite_imageI finite_UN_I)
     (auto split: prod.splits)

lemma finite_target_keys: "finite (target_keys contracts)"
  unfolding target_keys_def
  by (intro finite_UN_I finite_body_calls finite_cartesian_product finite_target_names) simp

lemma find_base_loop_key:
  "find_base_loop contracts p bs = Some b \<Longrightarrow> \<exists>c. map_of contracts b = Some c \<and> p b c"
  by (induction bs) (auto split: option.splits if_splits)

lemma find_base_key:
  "find_base contracts n p = Inr (Some b) \<Longrightarrow> \<exists>c. map_of contracts b = Some c \<and> p b c"
  by (auto simp: find_base_def split: option.splits dest: find_base_loop_key)

lemma map_of_in_fst: "map_of contracts b = Some c \<Longrightarrow> b \<in> fst ` set contracts"
  by (metis domI dom_map_of_conv_image_fst)

lemma map_of_in_set: "map_of contracts b = Some c \<Longrightarrow> (b, c) \<in> set contracts"
  by (rule map_of_SomeD)

lemma target_names_key: "map_of contracts b = Some c \<Longrightarrow> b \<in> target_names contracts r"
  by (simp add: target_names_def map_of_in_fst)

lemma target_names_var:
  "map_of contracts b = Some c \<Longrightarrow> state_user_vars c r = Some v \<Longrightarrow> v \<in> target_names contracts r"
  unfolding target_names_def by (auto dest!: map_of_in_set intro!: bexI [of _ "(b, c)"])

lemma target_names_lib:
  assumes "map_of contracts b = Some c" "state_user_vars c r = Some v"
    and "map_of contracts b' = Some c'" "usingfors c' v = Some l"
  shows "l \<in> target_names contracts r"
proof -
  from assms(1,3) have "(b, c) \<in> set contracts" "(b', c') \<in> set contracts"
    by (simp_all add: map_of_in_set)
  moreover from assms(2,4)
  have "l \<in> (\<Union>v \<in> set_option (state_user_vars c r). set_option (usingfors c' v))" by simp
  ultimately show ?thesis
    unfolding target_names_def by blast
qed

lemma resolve_call_target:
  assumes "resolve_call contracts the_callee call = Inr (Some t)"
  shows "function t = function call \<and> contract t \<in> target_names contracts (contract call)"
proof (cases "contract call = ''this'' \<or> contract call = ''super''")
  case True
  with assms obtain n p b where "find_base contracts n p = Inr (Some b)"
    "t = Call_init b (function call) (Some (context the_callee))"
    by (auto simp: resolve_call_def split: if_splits sum.splits option.splits)
  with find_base_key [of contracts n p b] show ?thesis
    by (auto simp: context_Call_init target_names_key)
next
  case False
  with assms obtain cc where cc: "map_of contracts (contract the_callee) = Some cc"
    by (auto simp: resolve_call_def split: option.splits)
  define direct where "direct =
    (if contract call \<in> set (linearization cc)
     then find_base contracts (contract call) (\<lambda>(k::string) c. has_function c (function call))
     else Inr None)"
  show ?thesis
  proof (cases direct)
    case (Inl e)
    with assms False cc show ?thesis
      by (simp add: resolve_call_def direct_def split: if_splits)
  next
    case (Inr found)
    show ?thesis
    proof (cases found)
      case (Some b)
      with Inr assms False cc have t: "t = Call_init b (function call) (Some (context the_callee))"
        by (simp add: resolve_call_def direct_def split: if_splits)
      from Some Inr have "find_base contracts (contract call)
          (\<lambda>(k::string) c. has_function c (function call)) = Inr (Some b)"
        by (simp add: direct_def split: if_splits)
      from find_base_key [OF this] t show ?thesis
        by (auto simp: context_Call_init target_names_key)
    next
      case None
      from None Inr have d: "(if contract call \<in> set (linearization cc)
           then find_base contracts (contract call) (\<lambda>(k::string) c. has_function c (function call))
           else Inr None) = Inr None"
        by (simp add: direct_def)
      from assms False cc obtain base_name bc contract_to where
        b: "map_of contracts base_name = Some bc"
           "state_user_vars bc (contract call) = Some contract_to"
        and rest: "(map_of contracts contract_to \<noteq> None \<and>
                     t = Call_init contract_to (function call) (Some base_name)) \<or>
                   (\<exists>base_usingfor uc library.
                      map_of contracts base_usingfor = Some uc \<and>
                      usingfors uc contract_to = Some library \<and>
                      t = Call_init library (function call) (Some base_name))"
        using d unfolding resolve_call_def Let_def
        by (simp split: sum.splits option.splits if_splits add: Let_def) blast+
      from rest show ?thesis
      proof (elim disjE conjE exE)
        assume "t = Call_init contract_to (function call) (Some base_name)"
        with target_names_var [OF b] show ?thesis by (simp add: context_Call_init)
      next
        fix base_usingfor uc library
        assume u: "map_of contracts base_usingfor = Some uc" "usingfors uc contract_to = Some library"
          "t = Call_init library (function call) (Some base_name)"
        with target_names_lib [OF b u(1,2)] show ?thesis by (simp add: context_Call_init)
      qed
    qed
  qed
qed

lemma resolve_call_key:
  assumes "resolve_call contracts the_callee call = Inr (Some t)" "call \<in> body_calls contracts"
  shows "call_key t \<in> target_keys contracts"
  using resolve_call_target [OF assms(1)] assms(2)
  unfolding target_keys_def call_key_def by auto

lemma walk_measure_append:
  assumes "\<not> Call_in t wl" "call_key t \<in> target_keys contracts"
  shows "walk_measure contracts (wl @ [t]) = walk_measure contracts wl"
proof -
  let ?rest = "target_keys contracts - call_key ` set wl"
  from assms have in_rest: "call_key t \<in> ?rest" by (simp add: Call_in_key)
  have fin: "finite ?rest" by (simp add: finite_target_keys)
  have "target_keys contracts - call_key ` set (wl @ [t]) = ?rest - {call_key t}" by auto
  then have "card (target_keys contracts - call_key ` set (wl @ [t])) = card ?rest - 1"
    using in_rest fin by simp
  moreover from in_rest fin have "card ?rest > 0" by (auto simp: card_gt_0_iff)
  ultimately show ?thesis by (simp add: walk_measure_def)
qed

lemma set_add_Edge: "set (add_Edge x s) = set s \<or> set (add_Edge x s) = insert x (set s)"
  by (simp add: add_Edge_def)

lemma add_Edge_has: "\<exists>e \<in> set (add_Edge x s). Edge_eq x e"
  by (auto simp: add_Edge_def list_ex_iff Edge_eq_def Call_eq_def Function_eq_def)

lemma Call_in_append: "Call_in t wl \<Longrightarrow> Call_in t (wl @ new)"
  by (auto simp: Call_in_def list_ex_iff)

lemma Call_in_last: "Call_in t (wl @ [t])"
  by (simp add: Call_in_key)

lemma walk_call_inner_prefix:
  "walk_call_inner contracts cl body wl es = Inr (wl', es') \<Longrightarrow> \<exists>new. wl' = wl @ new"
proof (induction body arbitrary: wl es)
  case Nil
  then show ?case by simp
next
  case (Cons call rest)
  show ?case
  proof (cases "resolve_call contracts cl call")
    case (Inl e)
    with Cons.prems show ?thesis by simp
  next
    case (Inr found)
    show ?thesis
    proof (cases found)
      case None
      with Inr Cons.prems have "walk_call_inner contracts cl rest wl es = Inr (wl', es')"
        by simp
      from Cons.IH [OF this] show ?thesis .
    next
      case (Some t)
      with Inr Cons.prems
      have "walk_call_inner contracts cl rest (if \<not> Call_in t wl then wl @ [t] else wl)
              (es(contract cl := add_Edge \<lparr>caller = cl, callee = t\<rparr> (es (contract cl))))
            = Inr (wl', es')" by simp
      from Cons.IH [OF this] show ?thesis by (cases "Call_in t wl") auto
    qed
  qed
qed

lemma walk_call_inner_worklist:
  assumes "walk_call_inner contracts cl body wl es = Inr (wl', es')"
    and "set body \<subseteq> body_calls contracts"
  shows "walk_measure contracts wl' = walk_measure contracts wl \<and>
         (distinct (map call_key wl) \<longrightarrow> distinct (map call_key wl'))"
  using assms
proof (induction body arbitrary: wl es)
  case Nil
  then show ?case by simp
next
  case (Cons call rest)
  from Cons.prems(2) have call: "call \<in> body_calls contracts"
    and rest: "set rest \<subseteq> body_calls contracts" by simp_all
  show ?case
  proof (cases "resolve_call contracts cl call")
    case (Inl e)
    with Cons.prems(1) show ?thesis by simp
  next
    case (Inr found)
    show ?thesis
    proof (cases found)
      case None
      with Inr Cons.prems(1) have "walk_call_inner contracts cl rest wl es = Inr (wl', es')"
        by simp
      from Cons.IH [OF this rest] show ?thesis .
    next
      case (Some t)
      let ?wl = "if \<not> Call_in t wl then wl @ [t] else wl"
      let ?es = "es(contract cl := add_Edge \<lparr>caller = cl, callee = t\<rparr> (es (contract cl)))"
      from Some Inr Cons.prems(1)
      have "walk_call_inner contracts cl rest ?wl ?es = Inr (wl', es')" by simp
      from Cons.IH [OF this rest]
      have ih: "walk_measure contracts wl' = walk_measure contracts ?wl"
        "distinct (map call_key ?wl) \<longrightarrow> distinct (map call_key wl')" by simp_all
      from Some Inr have key: "call_key t \<in> target_keys contracts"
        using resolve_call_key [OF _ call] by simp
      have m: "walk_measure contracts ?wl = walk_measure contracts wl"
        using key by (simp add: walk_measure_append)
      have d: "distinct (map call_key wl) \<longrightarrow> distinct (map call_key ?wl)"
        by (auto simp: Call_in_key)
      from ih m d show ?thesis by simp
    qed
  qed
qed

lemma walk_call_inner_edges:
  assumes "walk_call_inner contracts cl body wl es = Inr (wl', es')"
  shows "(\<forall>k. set (es k) \<subseteq> set (es' k)) \<and>
         (\<forall>k e. e \<in> set (es' k) \<longrightarrow> e \<in> set (es k) \<or> (k = contract cl \<and> caller e = cl)) \<and>
         (\<forall>call \<in> set body. \<forall>t. resolve_call contracts cl call = Inr (Some t) \<longrightarrow>
            Call_in t wl' \<and>
            (\<exists>e \<in> set (es' (contract cl)). Edge_eq \<lparr>caller = cl, callee = t\<rparr> e))"
  using assms
proof (induction body arbitrary: wl es)
  case Nil
  then show ?case by simp
next
  case (Cons call rest)
  show ?case
  proof (cases "resolve_call contracts cl call")
    case (Inl e)
    with Cons.prems(1) show ?thesis by simp
  next
    case (Inr found)
    show ?thesis
    proof (cases found)
      case None
      with Inr Cons.prems(1) have "walk_call_inner contracts cl rest wl es = Inr (wl', es')"
        by simp
      from Cons.IH [OF this] None Inr show ?thesis by simp
    next
      case (Some t)
      let ?wl = "if \<not> Call_in t wl then wl @ [t] else wl"
      let ?new = "\<lparr>caller = cl, callee = t\<rparr>"
      let ?es = "es(contract cl := add_Edge ?new (es (contract cl)))"
      from Some Inr Cons.prems(1)
      have w: "walk_call_inner contracts cl rest ?wl ?es = Inr (wl', es')" by simp
      from Cons.IH [OF w]
      have ih1: "\<And>k. set (?es k) \<subseteq> set (es' k)"
        and ih2: "\<And>k e. e \<in> set (es' k) \<Longrightarrow> e \<in> set (?es k) \<or> (k = contract cl \<and> caller e = cl)"
        and ih3: "\<And>c t'. c \<in> set rest \<Longrightarrow> resolve_call contracts cl c = Inr (Some t') \<Longrightarrow>
            Call_in t' wl' \<and> (\<exists>e \<in> set (es' (contract cl)). Edge_eq \<lparr>caller = cl, callee = t'\<rparr> e)"
        by blast+
      from walk_call_inner_prefix [OF w] obtain new where new: "wl' = ?wl @ new" by auto
      have sub: "set (es k) \<subseteq> set (?es k)" for k
        using set_add_Edge [of ?new "es (contract cl)"] by auto
      have a: "\<forall>k. set (es k) \<subseteq> set (es' k)"
        using sub ih1 by blast
      have b: "\<forall>k e. e \<in> set (es' k) \<longrightarrow> e \<in> set (es k) \<or> (k = contract cl \<and> caller e = cl)"
      proof (intro allI impI)
        fix k e assume "e \<in> set (es' k)"
        from ih2 [OF this] show "e \<in> set (es k) \<or> (k = contract cl \<and> caller e = cl)"
        proof
          assume e: "e \<in> set (?es k)"
          show ?thesis
          proof (cases "k = contract cl")
            case True
            with e have "e \<in> set (add_Edge ?new (es (contract cl)))" by simp
            with set_add_Edge [of ?new "es (contract cl)"]
            have "e \<in> set (es (contract cl)) \<or> e = ?new" by auto
            with True show ?thesis by auto
          next
            case False
            with e show ?thesis by simp
          qed
        qed simp
      qed
      have "Call_in t ?wl" by (simp add: Call_in_last)
      with new have t_in: "Call_in t wl'" by (simp add: Call_in_append)
      from add_Edge_has [of ?new "es (contract cl)"]
      obtain e0 where "e0 \<in> set (?es (contract cl))" "Edge_eq ?new e0" by auto
      with ih1 [of "contract cl"]
      have t_edge: "\<exists>e \<in> set (es' (contract cl)). Edge_eq ?new e" by blast
      have c: "\<forall>c \<in> set (call # rest). \<forall>t'. resolve_call contracts cl c = Inr (Some t') \<longrightarrow>
            Call_in t' wl' \<and>
            (\<exists>e \<in> set (es' (contract cl)). Edge_eq \<lparr>caller = cl, callee = t'\<rparr> e)"
      proof (intro ballI allI impI)
        fix c t' assume c: "c \<in> set (call # rest)" "resolve_call contracts cl c = Inr (Some t')"
        show "Call_in t' wl' \<and>
            (\<exists>e \<in> set (es' (contract cl)). Edge_eq \<lparr>caller = cl, callee = t'\<rparr> e)"
        proof (cases "c = call")
          case True
          with c(2) Inr Some have "t' = t" by simp
          with t_in t_edge show ?thesis by simp
        next
          case False
          with c(1) have "c \<in> set rest" by simp
          from ih3 [OF this c(2)] show ?thesis .
        qed
      qed
      from a b c show ?thesis by blast
    qed
  qed
qed

lemma walk_call_step_cases:
  assumes "walk_call_step contracts ignore_list i st = Inr st'"
  obtains (ignored) "Call_in (calls st ! i) ignore_list"
      "st' = st\<lparr>nodes := (nodes st)(contract (calls st ! i) :=
               add_Call (calls st ! i) (nodes st (contract (calls st ! i))))\<rparr>"
  | (expanded) c body where "\<not> Call_in (calls st ! i) ignore_list"
      "map_of contracts (contract (calls st ! i)) = Some c"
      "map_of (functions c) (function (calls st ! i)) = Some body"
      "walk_call_inner contracts (calls st ! i) body (calls st) (edges st) =
         Inr (calls st', edges st')"
      "nodes st' = (nodes st)(contract (calls st ! i) :=
               add_Call (calls st ! i) (nodes st (contract (calls st ! i))))"
proof (cases "Call_in (calls st ! i) ignore_list")
  case True
  with assms ignored show ?thesis by (simp add: walk_call_step_def Let_def)
next
  case False
  with assms obtain c body wl es where
    "map_of contracts (contract (calls st ! i)) = Some c"
    "map_of (functions c) (function (calls st ! i)) = Some body"
    "walk_call_inner contracts (calls st ! i) body (calls st) (edges st) = Inr (wl, es)"
    "st' = \<lparr>calls = wl, nodes = (nodes st)(contract (calls st ! i) :=
               add_Call (calls st ! i) (nodes st (contract (calls st ! i)))), edges = es\<rparr>"
    by (auto simp: walk_call_step_def Let_def split: option.splits sum.splits)
  with False expanded show ?thesis by simp
qed

lemma body_in_body_calls:
  assumes "map_of contracts k = Some c" "map_of (functions c) f = Some body"
  shows "set body \<subseteq> body_calls contracts"
proof -
  from assms have "(k, c) \<in> set contracts" "(f, body) \<in> set (functions c)"
    by (simp_all add: map_of_SomeD)
  then show ?thesis unfolding body_calls_def by blast
qed

lemma walk_call_step_measure:
  assumes "walk_call_step contracts ignore_list i st = Inr st'"
  shows "walk_measure contracts (calls st') = walk_measure contracts (calls st) \<and>
         (\<exists>new. calls st' = calls st @ new) \<and>
         (distinct (map call_key (calls st)) \<longrightarrow> distinct (map call_key (calls st')))"
  using assms
proof (cases rule: walk_call_step_cases)
  case ignored
  then show ?thesis by simp
next
  case (expanded c body)
  from walk_call_inner_worklist [OF expanded(4) body_in_body_calls [OF expanded(2,3)]]
    walk_call_inner_prefix [OF expanded(4)]
  show ?thesis by simp
qed

lemma walk_measure_ge: "length wl \<le> walk_measure contracts wl"
  by (simp add: walk_measure_def)

text \<open>
  The outer loop returns from every state, and an invariant of its iterations holds of
  the state it returns when it returns one.
\<close>

lemma walk_call_loop_total:
  assumes "I i st"
    and step: "\<And>i st st'. I i st \<Longrightarrow> i < length (calls st) \<Longrightarrow>
             walk_call_step contracts ignore_list i st = Inr st' \<Longrightarrow> I (Suc i) st'"
  shows "\<exists>r. walk_call_loop contracts ignore_list i st = Some r \<and>
             (\<forall>st'. r = Inr st' \<longrightarrow> (\<exists>j. length (calls st') \<le> j \<and> I j st'))"
  using assms(1)
proof (induction "walk_measure contracts (calls st) - i" arbitrary: i st rule: less_induct)
  case less
  show ?case
  proof (cases "i < length (calls st)")
    case False
    then have "walk_call_loop contracts ignore_list i st = Some (Inr st)"
      by (subst walk_call_loop.simps) simp
    with False less.prems show ?thesis by (auto intro!: exI [of _ i])
  next
    case True
    show ?thesis
    proof (cases "walk_call_step contracts ignore_list i st")
      case (Inl e)
      with True have "walk_call_loop contracts ignore_list i st = Some (Inl e)"
        by (subst walk_call_loop.simps) simp
      then show ?thesis by simp
    next
      case (Inr st')
      with True have eq: "walk_call_loop contracts ignore_list i st =
          walk_call_loop contracts ignore_list (Suc i) st'"
        by (subst walk_call_loop.simps) simp
      from walk_call_step_measure [OF Inr]
      have "walk_measure contracts (calls st') = walk_measure contracts (calls st)" by simp
      moreover from True walk_measure_ge [of "calls st" contracts]
      have "i < walk_measure contracts (calls st)" by simp
      ultimately have dec: "walk_measure contracts (calls st') - Suc i
          < walk_measure contracts (calls st) - i" by simp
      from step [OF less.prems True Inr] have "I (Suc i) st'" .
      from less.hyps [OF dec this] eq show ?thesis by simp
    qed
  qed
qed

text \<open>
  C7. The traversal returns for every registry, entry call and ignore list (a result
  or an exception), and the worklist it ends with holds every (contract, function)
  pair at most once.
\<close>

theorem walk_call_terminates:
  "(\<exists>r. walk_call contracts entry ignore_list = Some r) \<and>
   (\<exists>r. walk_call_loop contracts ignore_list 0
           \<lparr>calls = [entry], nodes = (\<lambda>k. [])(contract entry := [entry]), edges = (\<lambda>k. [])\<rparr>
         = Some r \<and>
        (\<forall>st. r = Inr st \<longrightarrow> distinct (map call_key (calls st))))"
proof -
  let ?init = "\<lparr>calls = [entry], nodes = (\<lambda>k. [])(contract entry := [entry]), edges = (\<lambda>k. [])\<rparr>"
  have "\<exists>r. walk_call_loop contracts ignore_list 0 ?init = Some r \<and>
          (\<forall>st'. r = Inr st' \<longrightarrow>
             (\<exists>j. length (calls st') \<le> j \<and> distinct (map call_key (calls st'))))"
  proof (rule walk_call_loop_total [where I = "\<lambda>i st. distinct (map call_key (calls st))"])
    show "distinct (map call_key (calls ?init))" by simp
  next
    fix i st st'
    assume "distinct (map call_key (calls st))"
      "walk_call_step contracts ignore_list i st = Inr st'"
    with walk_call_step_measure [of contracts ignore_list i st st']
    show "distinct (map call_key (calls st'))" by simp
  qed
  then obtain r where r: "walk_call_loop contracts ignore_list 0 ?init = Some r"
    "\<forall>st. r = Inr st \<longrightarrow> distinct (map call_key (calls st))" by auto
  from r(1) have "\<exists>r'. walk_call contracts entry ignore_list = Some r'"
    by (cases r) (simp_all add: walk_call_def)
  with r show ?thesis by blast
qed

theorem walk_call_terminates_witness:
  "(case walk_call pingpong (Call_init ''R'' ping None) [] of
      Some (Inr (ns, es)) \<Rightarrow>
        ns ''R'' = [Call_init ''R'' ping None, Call_init ''R'' pong (Some ''R'')] \<and>
        es ''R'' = [\<lparr>caller = Call_init ''R'' ping None, callee = Call_init ''R'' pong (Some ''R'')\<rparr>,
                   \<lparr>caller = Call_init ''R'' pong (Some ''R''), callee = Call_init ''R'' ping (Some ''R'')\<rparr>]
    | _ \<Rightarrow> False) \<and>
   (case walk_call chain (Call_init ''B'' foo None) [] of
      Some (Inr (ns, es)) \<Rightarrow>
        ns ''B'' = [Call_init ''B'' foo None] \<and> ns ''A'' = [Call_init ''A'' foo (Some ''B'')] \<and>
        es ''B'' = [\<lparr>caller = Call_init ''B'' foo None, callee = Call_init ''A'' foo (Some ''B'')\<rparr>]
    | _ \<Rightarrow> False)"
  using walk_call_terminates [of pingpong "Call_init ''R'' ping None" "[]"]
  by (simp add: walk_eval pingpong_def chain_def ping_def pong_def foo_def bar_def)

section \<open>The ignore filter\<close>

lemma set_add_Call: "set (add_Call x s) = set s \<or> set (add_Call x s) = insert x (set s)"
  by (simp add: add_Call_def)

lemma add_Call_mem:
  assumes "distinct (map call_key wl)" "x \<in> set wl" "set s \<subseteq> set wl"
  shows "x \<in> set (add_Call x s)"
proof (cases "Call_in x s")
  case False
  then show ?thesis by (simp add: add_Call_def)
next
  case True
  then obtain y where y: "y \<in> set s" "call_key x = call_key y"
    by (auto simp: Call_in_key)
  with assms(3) have "y \<in> set wl" by auto
  with assms(1,2) y(2) have "x = y"
    by (auto simp: distinct_map inj_on_def)
  with y(1) True show ?thesis by (simp add: add_Call_def)
qed

lemma expanded_mono:
  assumes "expanded contracts ignore_list wl es n"
    and "\<And>k. set (es k) \<subseteq> set (es' k)"
  shows "expanded contracts ignore_list (wl @ new) es' n"
  unfolding expanded_def
proof (intro impI allI)
  fix c body call t
  assume h: "\<not> Call_in n ignore_list" "map_of contracts (contract n) = Some c"
    "map_of (functions c) (function n) = Some body" "call \<in> set body"
    "resolve_call contracts n call = Inr (Some t)"
  with assms(1) have "Call_in t wl"
    and "\<exists>e \<in> set (es (contract n)). Edge_eq \<lparr>caller = n, callee = t\<rparr> e"
    unfolding expanded_def by blast+
  with assms(2) [of "contract n"]
  show "Call_in t (wl @ new) \<and> (\<exists>e \<in> set (es' (contract n)). Edge_eq \<lparr>caller = n, callee = t\<rparr> e)"
    by (auto simp: Call_in_append)
qed

lemma walk_inv_step:
  assumes inv: "walk_inv contracts ignore_list i st"
    and i: "i < length (calls st)"
    and st': "walk_call_step contracts ignore_list i st = Inr st'"
  shows "walk_inv contracts ignore_list (Suc i) st'"
proof -
  let ?cl = "calls st ! i"
  from inv have d: "distinct (map call_key (calls st))"
    and n1: "\<And>k. set (take i (calls st)) \<inter> {c. contract c = k} \<subseteq> set (nodes st k)"
    and n2: "\<And>k. set (nodes st k) \<subseteq> set (calls st) \<inter> {c. contract c = k}"
    and e1: "\<And>k e. e \<in> set (edges st k) \<Longrightarrow> \<not> Call_in (caller e) ignore_list"
    and ex: "\<And>j. j < i \<Longrightarrow> expanded contracts ignore_list (calls st) (edges st) (calls st ! j)"
    unfolding walk_inv_def by blast+
  from walk_call_step_measure [OF st'] d obtain new where
    new: "calls st' = calls st @ new" and d': "distinct (map call_key (calls st'))" by auto
  from i have cl: "?cl \<in> set (calls st)" by simp
  have nodes': "nodes st' = (nodes st)(contract ?cl := add_Call ?cl (nodes st (contract ?cl)))"
    using st' by (cases rule: walk_call_step_cases) simp_all
  have take: "take (Suc i) (calls st') = take i (calls st) @ [?cl]"
    using i new by (simp add: take_Suc_conv_app_nth nth_append)
  have nth: "calls st' ! j = calls st ! j" if "j \<le> i" for j
    using that i new by (simp add: nth_append)
  have a: "Suc i \<le> length (calls st')" using i new by simp
  have b: "set (take (Suc i) (calls st')) \<inter> {c. contract c = k} \<subseteq> set (nodes st' k)" for k
  proof
    fix x assume x: "x \<in> set (take (Suc i) (calls st')) \<inter> {c. contract c = k}"
    show "x \<in> set (nodes st' k)"
    proof (cases "x = ?cl")
      case True
      from add_Call_mem [OF d cl, of "nodes st (contract ?cl)"] n2 [of "contract ?cl"]
      have "?cl \<in> set (add_Call ?cl (nodes st (contract ?cl)))" by blast
      with True x show ?thesis by (simp add: nodes')
    next
      case False
      with x take have "x \<in> set (take i (calls st)) \<inter> {c. contract c = k}" by simp
      with n1 [of k] have xin: "x \<in> set (nodes st k)" by blast
      show ?thesis
      proof (cases "k = contract ?cl")
        case True
        with xin set_add_Call [of ?cl "nodes st (contract ?cl)"] show ?thesis
          by (auto simp: nodes')
      next
        case False
        with xin show ?thesis by (simp add: nodes')
      qed
    qed
  qed
  have c: "set (nodes st' k) \<subseteq> set (calls st') \<inter> {c. contract c = k}" for k
  proof (cases "k = contract ?cl")
    case True
    from set_add_Call [of ?cl "nodes st (contract ?cl)"]
    have "set (nodes st' k) \<subseteq> insert ?cl (set (nodes st k))"
      using True by (auto simp: nodes')
    with n2 [of k] cl True new show ?thesis by auto
  next
    case False
    with n2 [of k] new show ?thesis by (auto simp: nodes')
  qed
  from st' have rest: "(\<forall>k. \<forall>e \<in> set (edges st' k). \<not> Call_in (caller e) ignore_list) \<and>
      (\<forall>j < Suc i. expanded contracts ignore_list (calls st') (edges st') (calls st' ! j))"
  proof (cases rule: walk_call_step_cases)
    case ignored
    then have same: "calls st' = calls st" "edges st' = edges st" by simp_all
    have "expanded contracts ignore_list (calls st) (edges st) (calls st ! j)" if "j < Suc i" for j
    proof (cases "j = i")
      case True
      with ignored(1) show ?thesis by (simp add: expanded_def)
    next
      case False
      with that have "j < i" by simp
      then show ?thesis by (rule ex)
    qed
    with e1 same show ?thesis by simp
  next
    case (expanded c body)
    from walk_call_inner_edges [OF expanded(4)]
    have g1: "\<And>k. set (edges st k) \<subseteq> set (edges st' k)"
      and g2: "\<And>k e. e \<in> set (edges st' k) \<Longrightarrow>
                 e \<in> set (edges st k) \<or> (k = contract ?cl \<and> caller e = ?cl)"
      and g3: "\<And>call t. call \<in> set body \<Longrightarrow> resolve_call contracts ?cl call = Inr (Some t) \<Longrightarrow>
                 Call_in t (calls st') \<and>
                 (\<exists>e \<in> set (edges st' (contract ?cl)). Edge_eq \<lparr>caller = ?cl, callee = t\<rparr> e)"
      by blast+
    have p: "\<forall>k. \<forall>e \<in> set (edges st' k). \<not> Call_in (caller e) ignore_list"
    proof (intro allI ballI)
      fix k e assume "e \<in> set (edges st' k)"
      from g2 [OF this] show "\<not> Call_in (caller e) ignore_list"
        using e1 [of e k] expanded(1) by auto
    qed
    have q: "expanded contracts ignore_list (calls st') (edges st') (calls st' ! j)"
      if "j < Suc i" for j
    proof (cases "j = i")
      case True
      have "expanded contracts ignore_list (calls st') (edges st') ?cl"
        unfolding expanded_def
      proof (intro impI allI)
        fix c' body' call t
        assume h: "map_of contracts (contract ?cl) = Some c'"
          "map_of (functions c') (function ?cl) = Some body'" "call \<in> set body'"
          "resolve_call contracts ?cl call = Inr (Some t)"
        with expanded(2,3) have "body' = body" by simp
        with h g3 [of call t]
        show "Call_in t (calls st') \<and>
              (\<exists>e \<in> set (edges st' (contract ?cl)). Edge_eq \<lparr>caller = ?cl, callee = t\<rparr> e)"
          by simp
      qed
      with True nth [of i] show ?thesis by simp
    next
      case False
      with that have j: "j < i" by simp
      from expanded_mono [OF ex [OF j] g1, of new] new nth [of j] j
      show ?thesis by simp
    qed
    from p q show ?thesis by blast
  qed
  from a d' b c rest show ?thesis unfolding walk_inv_def by blast
qed

lemma walk_inv_init:
  "walk_inv contracts ignore_list 0
     \<lparr>calls = [entry], nodes = (\<lambda>k. [])(contract entry := [entry]), edges = (\<lambda>k. [])\<rparr>"
  by (auto simp: walk_inv_def)

lemma walk_call_loop_inv:
  assumes "walk_call_loop contracts ignore_list 0
     \<lparr>calls = [entry], nodes = (\<lambda>k. [])(contract entry := [entry]), edges = (\<lambda>k. [])\<rparr>
     = Some (Inr st)"
  shows "walk_inv contracts ignore_list (length (calls st)) st"
proof -
  have "\<exists>r. walk_call_loop contracts ignore_list 0
          \<lparr>calls = [entry], nodes = (\<lambda>k. [])(contract entry := [entry]), edges = (\<lambda>k. [])\<rparr>
          = Some r \<and>
        (\<forall>st'. r = Inr st' \<longrightarrow>
           (\<exists>j. length (calls st') \<le> j \<and> walk_inv contracts ignore_list j st'))"
  proof (rule walk_call_loop_total [where I = "walk_inv contracts ignore_list"])
    show "walk_inv contracts ignore_list 0
        \<lparr>calls = [entry], nodes = (\<lambda>k. [])(contract entry := [entry]), edges = (\<lambda>k. [])\<rparr>"
      by (rule walk_inv_init)
  next
    fix i s s'
    assume "walk_inv contracts ignore_list i s" "i < length (calls s)"
      "walk_call_step contracts ignore_list i s = Inr s'"
    then show "walk_inv contracts ignore_list (Suc i) s'" by (rule walk_inv_step)
  qed
  with assms obtain j where j: "length (calls st) \<le> j" "walk_inv contracts ignore_list j st"
    by auto
  from j(2) have "j \<le> length (calls st)" by (simp add: walk_inv_def)
  with j show ?thesis by simp
qed

text \<open>
  C8. In the graph that \<open>walk_call\<close> returns, no edge has an ignored call as its
  caller, whatever the body of the ignored call holds. The entry is a node, and for
  every node that is not ignored, each call of its body that resolves has its target
  (ignored or not) among the nodes of the target's contract and has the edge to it
  recorded under the node's contract. Membership in the ignore list and in the node
  and edge sets is by \<open>Call.__eq__\<close>, which does not look at the context.
\<close>

theorem ignored_calls_are_terminal:
  assumes "walk_call contracts entry ignore_list = Some (Inr (ns, es))"
  shows "(\<forall>k. \<forall>e \<in> set (es k). \<not> Call_in (caller e) ignore_list) \<and>
         entry \<in> set (ns (contract entry)) \<and>
         (\<forall>k. \<forall>n \<in> set (ns k). \<not> Call_in n ignore_list \<longrightarrow>
            (\<forall>c body call t.
               map_of contracts (contract n) = Some c \<longrightarrow>
               map_of (functions c) (function n) = Some body \<longrightarrow>
               call \<in> set body \<longrightarrow>
               resolve_call contracts n call = Inr (Some t) \<longrightarrow>
               Call_in t (ns (contract t)) \<and>
               (\<exists>e \<in> set (es (contract n)). Edge_eq \<lparr>caller = n, callee = t\<rparr> e)))"
proof -
  let ?init = "\<lparr>calls = [entry], nodes = (\<lambda>k. [])(contract entry := [entry]), edges = (\<lambda>k. [])\<rparr>"
  from assms obtain st where st: "walk_call_loop contracts ignore_list 0 ?init = Some (Inr st)"
    and ns: "ns = nodes st" and es: "es = edges st"
    by (auto simp: walk_call_def split: option.splits sum.splits)
  let ?n = "length (calls st)"
  from walk_call_loop_inv [OF st]
  have n1: "\<And>k. set (calls st) \<inter> {c. contract c = k} \<subseteq> set (nodes st k)"
    and n2: "\<And>k. set (nodes st k) \<subseteq> set (calls st) \<inter> {c. contract c = k}"
    and e1: "\<forall>k. \<forall>e \<in> set (edges st k). \<not> Call_in (caller e) ignore_list"
    and ex: "\<And>j. j < ?n \<Longrightarrow> expanded contracts ignore_list (calls st) (edges st) (calls st ! j)"
    unfolding walk_inv_def by simp_all
  have pre: "\<exists>new. calls st = [entry] @ new"
  proof -
    have "\<exists>r. walk_call_loop contracts ignore_list 0 ?init = Some r \<and>
          (\<forall>st'. r = Inr st' \<longrightarrow> (\<exists>j. length (calls st') \<le> j \<and> (\<exists>new. calls st' = [entry] @ new)))"
      proof (rule walk_call_loop_total [where I = "\<lambda>i s. \<exists>new. calls s = [entry] @ new"])
        show "\<exists>new. calls ?init = [entry] @ new" by simp
      next
        fix i s s'
        assume "\<exists>new. calls s = [entry] @ new" "walk_call_step contracts ignore_list i s = Inr s'"
        with walk_call_step_measure [of contracts ignore_list i s s']
        show "\<exists>new. calls s' = [entry] @ new" by auto
      qed
    with st show ?thesis by auto
  qed
  then have "entry \<in> set (calls st)" by auto
  with n1 [of "contract entry"] have entry: "entry \<in> set (nodes st (contract entry))" by auto
  have closure: "Call_in t (nodes st (contract t)) \<and>
      (\<exists>e \<in> set (edges st (contract n)). Edge_eq \<lparr>caller = n, callee = t\<rparr> e)"
    if n: "n \<in> set (nodes st k)" "\<not> Call_in n ignore_list"
      and h: "map_of contracts (contract n) = Some c"
        "map_of (functions c) (function n) = Some body" "call \<in> set body"
        "resolve_call contracts n call = Inr (Some t)"
    for k n c body call t
  proof -
    from n(1) n2 [of k] have "n \<in> set (calls st)" by auto
    then obtain j where j: "j < ?n" "calls st ! j = n" by (auto simp: in_set_conv_nth)
    from ex [OF j(1)] j(2) n(2) h
    have t: "Call_in t (calls st)"
      and e: "\<exists>e \<in> set (edges st (contract n)). Edge_eq \<lparr>caller = n, callee = t\<rparr> e"
      unfolding expanded_def by blast+
    from t obtain y where y: "y \<in> set (calls st)" "Call_eq t y"
      by (auto simp: Call_in_def list_ex_iff)
    then have "contract y = contract t" by (simp add: Call_eq_def)
    with y(1) n1 [of "contract t"] have "y \<in> set (nodes st (contract t))" by auto
    with y(2) have "Call_in t (nodes st (contract t))"
      by (auto simp: Call_in_def list_ex_iff)
    with e show ?thesis by simp
  qed
  from e1 entry closure show ?thesis unfolding ns es by blast
qed

theorem ignored_calls_are_terminal_witness:
  "(case walk_call token (Call_init ''Token'' approve None)
           [Call_init ''Token'' approve' None] of
      Some (Inr (ns, es)) \<Rightarrow>
        ns ''Token'' = [Call_init ''Token'' approve None,
                        Call_init ''Token'' approve' (Some ''Token'')] \<and>
        es ''Token'' = [\<lparr>caller = Call_init ''Token'' approve None,
                          callee = Call_init ''Token'' approve' (Some ''Token'')\<rparr>] \<and>
        list_all (\<lambda>e. \<not> Call_in (caller e) [Call_init ''Token'' approve' None]) (es ''Token'')
    | _ \<Rightarrow> False)"
proof -
  have "\<exists>ns es. walk_call token (Call_init ''Token'' approve None)
           [Call_init ''Token'' approve' None] = Some (Inr (ns, es)) \<and>
        ns ''Token'' = [Call_init ''Token'' approve None,
                        Call_init ''Token'' approve' (Some ''Token'')] \<and>
        es ''Token'' = [\<lparr>caller = Call_init ''Token'' approve None,
                          callee = Call_init ''Token'' approve' (Some ''Token'')\<rparr>]"
    by (simp add: walk_eval token_def approve_def approve'_def log0_def)
  then obtain ns es where w: "walk_call token (Call_init ''Token'' approve None)
           [Call_init ''Token'' approve' None] = Some (Inr (ns, es))"
    and v: "ns ''Token'' = [Call_init ''Token'' approve None,
                        Call_init ''Token'' approve' (Some ''Token'')]"
       "es ''Token'' = [\<lparr>caller = Call_init ''Token'' approve None,
                          callee = Call_init ''Token'' approve' (Some ''Token'')\<rparr>]"
    by blast
  from ignored_calls_are_terminal [OF w]
  have "\<forall>e \<in> set (es ''Token''). \<not> Call_in (caller e) [Call_init ''Token'' approve' None]"
    by blast
  then have "list_all (\<lambda>e. \<not> Call_in (caller e) [Call_init ''Token'' approve' None]) (es ''Token'')"
    by (simp add: list_all_iff)
  with w v show ?thesis by simp
qed

end
